theory Spec2Isabelle
  imports Main
begin

section \<open>TempBox: an in-memory key/value store with per-key expiry\<close>

text \<open>
  The class \<open>TempBox\<close> keeps three fields: \<open>data\<close> (a Map from key to
  \<open>{value, expiresAt}\<close>), \<open>queue\<close> (a TinyQueue of \<open>{key, expiresAt}\<close> ordered by
  \<open>expiresAt\<close>) and \<open>timer\<close> (the handle of the last \<open>setTimeout\<close>, or null).
  The embedding passes the object as a record. Two things the class reaches outside itself
  for are made explicit in the same record:
  \<^item> the table of pending timeouts of the platform (\<open>setTimeout\<close> adds a row under a
    fresh handle, \<open>clearTimeout\<close> removes the row of a handle, the event loop removes a
    row when it runs its callback);
  \<^item> the calls made to the four optional callbacks, appended to \<open>calls\<close> in the order
    in which the code reaches them (the callbacks are observers: they do not call back
    into the store).

  \<open>Date.now()\<close> is the argument \<open>now\<close> of every operation; one operation reads one
  instant. Instants and TTLs are integers (milliseconds); \<open>NaN\<close>, infinities and
  fractions are outside the model. The platform runs a timeout no earlier than the instant
  of \<open>setTimeout\<close> plus the delay, and possibly later; the least delay of 1 ms and the
  32-bit limit on delays of Node.js are not modelled.

  Names are the source's, except \<open>setKey\<close> for the method \<open>set\<close> (the name of HOL's
  \<open>set\<close> of a list) and record fields, which carry a prefix (\<open>e_\<close> for an entry of
  the table, \<open>q_\<close> for a queued item, \<open>t_\<close> for a pending timeout).
\<close>

subsection \<open>Values\<close>

text \<open>A stored value is any JavaScript value; \<open>undefined\<close> is one of them.\<close>

datatype 'v jsvalue = Undefined | Val 'v

text \<open>\<open>type MapType = { value: any; expiresAt: number }\<close>, where \<open>expiresAt\<close> is
  \<open>null\<close> for an entry without a TTL.\<close>

record 'v MapType =
  e_value :: "'v jsvalue"
  e_expiresAt :: "int option"

text \<open>\<open>type QueuedValue = { expiresAt: number; key: string }\<close>\<close>

record 'k QueuedValue =
  q_expiresAt :: int
  q_key :: 'k

text \<open>The truth value JavaScript gives a \<open>number | null | undefined\<close>: null, undefined
  and 0 are falsy.\<close>

fun truthy :: "int option \<Rightarrow> bool" where
  "truthy None = False"
| "truthy (Some n) = (n \<noteq> 0)"

subsection \<open>The queue\<close>

text \<open>
  Modelled from the spec: TinyQueue (the npm package \<open>tinyqueue\<close>, imported by the
  class and not part of the sources). The spec gives its contract: insert; peek the item
  with the smallest \<open>expiresAt\<close>, or nothing when empty; pop removes that item; the
  order among equal \<open>expiresAt\<close> is left open. Here the queue is the list of its items
  in insertion order, and among equal minima the oldest is served first.
\<close>

definition tq_push :: "'k QueuedValue \<Rightarrow> 'k QueuedValue list \<Rightarrow> 'k QueuedValue list" where
  "tq_push x q = q @ [x]"

definition tq_peek :: "'k QueuedValue list \<Rightarrow> 'k QueuedValue option" where
  "tq_peek q = (if q = [] then None else Some (arg_min_list q_expiresAt q))"

definition tq_pop :: "'k QueuedValue list \<Rightarrow> 'k QueuedValue list" where
  "tq_pop q = (case tq_peek q of None \<Rightarrow> q | Some x \<Rightarrow> remove1 x q)"

subsection \<open>The store and the platform's timers\<close>

text \<open>A pending timeout: its handle, the instant from which the event loop may run it
  (the instant of \<open>setTimeout\<close> plus the delay), and the two variables \<open>key\<close> and
  \<open>entry\<close> its closure captured.\<close>

record ('k, 'v) Timeout =
  t_id :: nat
  t_due :: int
  t_key :: 'k
  t_entry :: "'v MapType"

datatype ('k, 'v) callback =
    OnExpire 'k "'v jsvalue"
  | OnSet 'k "'v jsvalue"
  | OnDelete 'k
  | OnClear

record ('k, 'v) TempBox =
  data :: "'k \<Rightarrow> 'v MapType option"
  timer :: "nat option"
  queue :: "'k QueuedValue list"
  timeouts :: "('k, 'v) Timeout list"
  next_id :: nat
  calls :: "('k, 'v) callback list"

text \<open>\<open>new TempBox(params)\<close>\<close>

definition new :: "('k, 'v) TempBox" where
  "new = \<lparr> data = Map.empty, timer = None, queue = [], timeouts = [], next_id = 0, calls = [] \<rparr>"

definition clearTimeout :: "nat \<Rightarrow> ('k, 'v) TempBox \<Rightarrow> ('k, 'v) TempBox" where
  "clearTimeout h s = s\<lparr> timeouts := filter (\<lambda>t. t_id t \<noteq> h) (timeouts s) \<rparr>"

definition setTimeout ::
  "'k \<Rightarrow> 'v MapType \<Rightarrow> int \<Rightarrow> int \<Rightarrow> ('k, 'v) TempBox \<Rightarrow> nat \<times> ('k, 'v) TempBox" where
  "setTimeout k entry delay now s =
     (next_id s,
      s\<lparr> timeouts := timeouts s @
           [\<lparr> t_id = next_id s, t_due = now + delay, t_key = k, t_entry = entry \<rparr>],
         next_id := Suc (next_id s) \<rparr>)"

subsection \<open>The methods\<close>

text \<open>\<open>_expire(key, entry)\<close>\<close>

definition expire :: "'k \<Rightarrow> 'v MapType \<Rightarrow> ('k, 'v) TempBox \<Rightarrow> ('k, 'v) TempBox" where
  "expire k entry s =
     s\<lparr> data := (data s)(k := None), calls := calls s @ [OnExpire k (e_value entry)] \<rparr>"

text \<open>The \<open>while\<close> loop of \<open>_scheduleNext\<close>: a stale head is popped and the loop
  continues; a valid head gets a timeout and the loop breaks.\<close>

function scheduleLoop :: "int \<Rightarrow> ('k, 'v) TempBox \<Rightarrow> ('k, 'v) TempBox" where
  "scheduleLoop now s =
     (case tq_peek (queue s) of
        None \<Rightarrow> s
      | Some item \<Rightarrow>
          (case data s (q_key item) of
             None \<Rightarrow> scheduleLoop now (s\<lparr> queue := tq_pop (queue s) \<rparr>)
           | Some entry \<Rightarrow>
               if e_expiresAt entry \<noteq> Some (q_expiresAt item)
               then scheduleLoop now (s\<lparr> queue := tq_pop (queue s) \<rparr>)
               else (let delay = max 0 (q_expiresAt item - now);
                         (h, s') = setTimeout (q_key item) entry delay now s
                     in s'\<lparr> timer := Some h \<rparr>)))"
  by pat_completeness auto

termination
  by (relation "measure (\<lambda>(now, s). length (queue s))")
     (auto simp: tq_pop_def tq_peek_def length_remove1 arg_min_list_in split: if_splits)

declare scheduleLoop.simps [simp del]

definition scheduleNext :: "int \<Rightarrow> ('k, 'v) TempBox \<Rightarrow> ('k, 'v) TempBox" where
  "scheduleNext now s =
     scheduleLoop now (case timer s of None \<Rightarrow> s | Some h \<Rightarrow> clearTimeout h s)"

text \<open>\<open>set(key, value, ttlMs?)\<close>; an omitted \<open>ttlMs\<close> is \<open>None\<close>.\<close>

definition setKey ::
  "int \<Rightarrow> 'k \<Rightarrow> 'v jsvalue \<Rightarrow> int option \<Rightarrow> ('k, 'v) TempBox \<Rightarrow> ('k, 'v) TempBox" where
  "setKey now k v ttlMs s =
     (let expiresAt = (case ttlMs of
                         None \<Rightarrow> None
                       | Some ttl \<Rightarrow> if truthy ttlMs then Some (now + ttl) else None);
          s1 = s\<lparr> data := (data s)(k \<mapsto> \<lparr> e_value = v, e_expiresAt = expiresAt \<rparr>) \<rparr>;
          s2 = (case expiresAt of
                  None \<Rightarrow> s1
                | Some x \<Rightarrow>
                    if truthy expiresAt
                    then scheduleNext now
                           (s1\<lparr> queue := tq_push \<lparr> q_expiresAt = x, q_key = k \<rparr> (queue s1) \<rparr>)
                    else s1)
      in s2\<lparr> calls := calls s2 @ [OnSet k v] \<rparr>)"

text \<open>\<open>get(key)\<close>: the value returned and the store afterwards.\<close>

definition get :: "int \<Rightarrow> 'k \<Rightarrow> ('k, 'v) TempBox \<Rightarrow> 'v jsvalue \<times> ('k, 'v) TempBox" where
  "get now k s =
     (case data s k of
        None \<Rightarrow> (Undefined, s)
      | Some entry \<Rightarrow>
          (case e_expiresAt entry of
             None \<Rightarrow> (e_value entry, s)
           | Some x \<Rightarrow>
               if truthy (e_expiresAt entry) \<and> x \<le> now
               then (Undefined, expire k entry s)
               else (e_value entry, s)))"

text \<open>\<open>has(key)\<close>\<close>

definition has :: "int \<Rightarrow> 'k \<Rightarrow> ('k, 'v) TempBox \<Rightarrow> bool \<times> ('k, 'v) TempBox" where
  "has now k s = (let (v, s') = get now k s in (v \<noteq> Undefined, s'))"

text \<open>\<open>delete(key)\<close>\<close>

definition delete :: "'k \<Rightarrow> ('k, 'v) TempBox \<Rightarrow> bool \<times> ('k, 'v) TempBox" where
  "delete k s =
     (let deleted = (data s k \<noteq> None);
          s1 = s\<lparr> data := (data s)(k := None) \<rparr>
      in (deleted, if deleted then s1\<lparr> calls := calls s1 @ [OnDelete k] \<rparr> else s1))"

text \<open>\<open>stop()\<close>\<close>

definition stop :: "('k, 'v) TempBox \<Rightarrow> ('k, 'v) TempBox" where
  "stop s = (case timer s of None \<Rightarrow> s | Some h \<Rightarrow> clearTimeout h s)\<lparr> timer := None \<rparr>"

text \<open>\<open>while (this.queue.length > 0) this.queue.pop()\<close>\<close>

function pop_all :: "'k QueuedValue list \<Rightarrow> 'k QueuedValue list" where
  "pop_all q = (if length q > 0 then pop_all (tq_pop q) else q)"
  by pat_completeness auto

termination
  by (relation "measure length") (auto simp: tq_pop_def tq_peek_def length_remove1 arg_min_list_in)

declare pop_all.simps [simp del]

text \<open>\<open>clear()\<close>\<close>

definition clear :: "('k, 'v) TempBox \<Rightarrow> ('k, 'v) TempBox" where
  "clear s =
     (let s1 = s\<lparr> data := Map.empty \<rparr>;
          s2 = stop s1;
          s3 = s2\<lparr> queue := pop_all (queue s2) \<rparr>
      in s3\<lparr> calls := calls s3 @ [OnClear] \<rparr>)"

subsection \<open>The event loop\<close>

text \<open>The arrow function given to \<open>setTimeout\<close>, with the \<open>key\<close> and \<open>entry\<close> it
  captured.\<close>

definition timerCallback ::
  "int \<Rightarrow> 'k \<Rightarrow> 'v MapType \<Rightarrow> ('k, 'v) TempBox \<Rightarrow> ('k, 'v) TempBox" where
  "timerCallback now k entry s =
     scheduleNext now (expire k entry (s\<lparr> queue := tq_pop (queue s) \<rparr>))"

text \<open>
  The platform runs the callback of handle \<open>h\<close> at instant \<open>now\<close>. That can only happen
  when the timeout is still pending and its delay has passed; otherwise the result is
  \<open>None\<close> (no such event). A due timeout is not forced to run at once: synchronous code
  may read a later clock before the event loop gets to it.
\<close>

definition fire :: "int \<Rightarrow> nat \<Rightarrow> ('k, 'v) TempBox \<Rightarrow> ('k, 'v) TempBox option" where
  "fire now h s =
     (case find (\<lambda>t. t_id t = h) (timeouts s) of
        None \<Rightarrow> None
      | Some t \<Rightarrow>
          if t_due t \<le> now
          then Some (timerCallback now (t_key t) (t_entry t)
                       (s\<lparr> timeouts := filter (\<lambda>t. t_id t \<noteq> h) (timeouts s) \<rparr>))
          else None)"

text \<open>Everything that can happen to a store, and a history of such events, each at its
  instant. A history in which a callback runs that is not pending or not due has no result
  (\<open>None\<close>). Nothing here asks the instants of a history to increase: what is proved of
  every history holds of those a clock can produce.\<close>

datatype ('k, 'v) op =
    Set 'k "'v jsvalue" "int option"
  | Get 'k
  | Has 'k
  | Delete 'k
  | Clear
  | Stop
  | Fire nat

fun step :: "int \<times> ('k, 'v) op \<Rightarrow> ('k, 'v) TempBox \<Rightarrow> ('k, 'v) TempBox option" where
  "step (now, Set k v ttl) s = Some (setKey now k v ttl s)"
| "step (now, Get k) s = Some (snd (get now k s))"
| "step (now, Has k) s = Some (snd (has now k s))"
| "step (now, Delete k) s = Some (snd (delete k s))"
| "step (now, Clear) s = Some (clear s)"
| "step (now, Stop) s = Some (stop s)"
| "step (now, Fire h) s = fire now h s"

fun run :: "(int \<times> ('k, 'v) op) list \<Rightarrow> ('k, 'v) TempBox \<Rightarrow> ('k, 'v) TempBox option" where
  "run [] s = Some s"
| "run (e # es) s = (case step e s of None \<Rightarrow> None | Some s' \<Rightarrow> run es s')"

subsection \<open>Notions used by the properties\<close>

text \<open>A queued item is stale when the table has no entry for its key, or the entry's
  \<open>expiresAt\<close> is not the item's (the test of the loop in \<open>_scheduleNext\<close>).\<close>

definition stale :: "('k \<Rightarrow> 'v MapType option) \<Rightarrow> 'k QueuedValue \<Rightarrow> bool" where
  "stale d item =
     (case d (q_key item) of
        None \<Rightarrow> True
      | Some entry \<Rightarrow> e_expiresAt entry \<noteq> Some (q_expiresAt item))"

text \<open>The first \<open>n\<close> items the queue \<open>q\<close> serves, one pop after the other, are all
  stale for the table \<open>d\<close>.\<close>

fun dropped_stale ::
  "('k \<Rightarrow> 'v MapType option) \<Rightarrow> 'k QueuedValue list \<Rightarrow> nat \<Rightarrow> bool" where
  "dropped_stale d q 0 = True"
| "dropped_stale d q (Suc n) =
     (case tq_peek q of
        None \<Rightarrow> False
      | Some it \<Rightarrow> stale d it \<and> dropped_stale d (tq_pop q) n)"

text \<open>The timeout that arming the item \<open>it\<close> at instant \<open>now\<close> in the store \<open>s\<close>
  registers: the next free handle, the delay \<open>max(0, expiresAt - now)\<close>, and a closure
  over the item's key and the table's entry for it.\<close>

definition armed :: "int \<Rightarrow> ('k, 'v) TempBox \<Rightarrow> 'k QueuedValue \<Rightarrow> ('k, 'v) Timeout" where
  "armed now s it =
     \<lparr> t_id = next_id s, t_due = now + max 0 (q_expiresAt it - now), t_key = q_key it,
       t_entry = (case data s (q_key it) of Some entry \<Rightarrow> entry
                  | None \<Rightarrow> \<lparr> e_value = Undefined, e_expiresAt = None \<rparr>) \<rparr>"

text \<open>The timeouts left pending once the handle in \<open>timer\<close> has been cleared.\<close>

definition cancelled :: "('k, 'v) TempBox \<Rightarrow> ('k, 'v) Timeout list" where
  "cancelled s =
     (case timer s of None \<Rightarrow> timeouts s | Some h \<Rightarrow> filter (\<lambda>t. t_id t \<noteq> h) (timeouts s))"

text \<open>The timer discipline: nothing is pending, or exactly one timeout is and \<open>timer\<close>
  holds its handle.\<close>

definition one_timer :: "('k, 'v) TempBox \<Rightarrow> bool" where
  "one_timer s =
     (case timeouts s of
        [] \<Rightarrow> True
      | [t] \<Rightarrow> timer s = Some (t_id t)
      | _ \<Rightarrow> False)"

text \<open>The key \<open>k\<close> is gone from the table, or its entry expires at \<open>X\<close>.\<close>

definition expiring :: "'k \<Rightarrow> int \<Rightarrow> ('k, 'v) TempBox \<Rightarrow> bool" where
  "expiring k X s = (case data s k of None \<Rightarrow> True | Some e \<Rightarrow> e_expiresAt e = Some X)"

text \<open>Whether an event is a \<open>set\<close> of the key \<open>k\<close>.\<close>

fun sets_key :: "'k \<Rightarrow> ('k, 'v) op \<Rightarrow> bool" where
  "sets_key k (Set k' v ttl) = (k' = k)"
| "sets_key k _ = False"

text \<open>The values with which \<open>onExpire\<close> was invoked for the key \<open>k\<close>, in order.\<close>

fun expirations :: "'k \<Rightarrow> ('k, 'v) callback list \<Rightarrow> 'v jsvalue list" where
  "expirations k [] = []"
| "expirations k (OnExpire k' v # cs) =
     (if k' = k then v # expirations k cs else expirations k cs)"
| "expirations k (c # cs) = expirations k cs"

text \<open>Whether an event is a call on the key \<open>k\<close> (\<open>set\<close>, \<open>get\<close>, \<open>has\<close> or
  \<open>delete\<close> of \<open>k\<close>) or a \<open>clear\<close>. Calls on other keys, \<open>stop\<close> and timer
  callbacks are not.\<close>

fun touches :: "'k \<Rightarrow> ('k, 'v) op \<Rightarrow> bool" where
  "touches k (Set k' v ttl) = (k' = k)"
| "touches k (Get k') = (k' = k)"
| "touches k (Has k') = (k' = k)"
| "touches k (Delete k') = (k' = k)"
| "touches k Clear = True"
| "touches k Stop = False"
| "touches k (Fire h) = False"

fun is_fire :: "('k, 'v) op \<Rightarrow> bool" where
  "is_fire (Fire h) = True"
| "is_fire _ = False"

text \<open>Every pending timeout armed for the key \<open>k\<close> captured the entry the table now
  holds for \<open>k\<close>, and is due no earlier than that entry expires.\<close>

definition pending_ok :: "'k \<Rightarrow> ('k, 'v) TempBox \<Rightarrow> bool" where
  "pending_ok k s =
     (\<forall>t \<in> set (timeouts s). t_key t = k \<longrightarrow>
        data s k = Some (t_entry t) \<and> (\<exists>x. e_expiresAt (t_entry t) = Some x \<and> x \<le> t_due t))"

section \<open>Properties\<close>

subsection \<open>Auxiliary facts\<close>

text \<open>The equations that evaluate a history on a concrete store.\<close>

lemmas tb_defs =
  new_def setKey_def scheduleNext_def scheduleLoop.simps tq_push_def tq_peek_def tq_pop_def
  setTimeout_def delete_def fire_def timerCallback_def expire_def clearTimeout_def Let_def
  get_def has_def stop_def clear_def

lemma tq_peek_None: "tq_peek q = None \<longleftrightarrow> q = []"
  by (simp add: tq_peek_def)

lemma tq_peek_Nil [simp]: "tq_peek [] = None"
  by (simp add: tq_peek_def)

lemma tq_peek_in: "tq_peek q = Some x \<Longrightarrow> x \<in> set q"
  by (auto simp: tq_peek_def arg_min_list_in split: if_splits)

lemma tq_peek_min: "tq_peek q = Some x \<Longrightarrow> y \<in> set q \<Longrightarrow> q_expiresAt x \<le> q_expiresAt y"
  by (auto simp: tq_peek_def f_arg_min_list_f split: if_splits)

lemma tq_pop_Nil [simp]: "tq_pop [] = []"
  by (simp add: tq_pop_def tq_peek_def)

lemma pop_all_Nil: "pop_all q = []"
proof (induction q rule: pop_all.induct)
  case (1 q)
  then show ?case by (cases "q = []") (simp_all add: pop_all.simps)
qed

lemma length_tq_pop: "q \<noteq> [] \<Longrightarrow> length (tq_pop q) < length q"
proof -
  assume ne: "q \<noteq> []"
  then have "arg_min_list q_expiresAt q \<in> set q" by (rule arg_min_list_in)
  then have "length (remove1 (arg_min_list q_expiresAt q) q) = length q - 1"
    by (simp add: length_remove1)
  with ne show ?thesis by (simp add: tq_pop_def tq_peek_def)
qed

lemma stale_cases:
  "\<not> stale d it \<longleftrightarrow> (\<exists>entry. d (q_key it) = Some entry \<and> e_expiresAt entry = Some (q_expiresAt it))"
  by (simp add: stale_def split: option.splits)

lemma scheduleLoop_empty: "queue s = [] \<Longrightarrow> scheduleLoop now s = s"
  by (subst scheduleLoop.simps) simp

lemma scheduleLoop_stale:
  "tq_peek (queue s) = Some it \<Longrightarrow> stale (data s) it \<Longrightarrow>
     scheduleLoop now s = scheduleLoop now (s\<lparr> queue := tq_pop (queue s) \<rparr>)"
  by (subst scheduleLoop.simps) (simp add: stale_def split: option.splits)

lemma scheduleLoop_valid:
  "tq_peek (queue s) = Some it \<Longrightarrow> data s (q_key it) = Some entry \<Longrightarrow>
   e_expiresAt entry = Some (q_expiresAt it) \<Longrightarrow>
     scheduleLoop now s =
       s\<lparr> timeouts := timeouts s @ [\<lparr> t_id = next_id s, t_due = now + max 0 (q_expiresAt it - now),
                                       t_key = q_key it, t_entry = entry \<rparr>],
          next_id := Suc (next_id s), timer := Some (next_id s) \<rparr>"
  by (subst scheduleLoop.simps) (simp add: setTimeout_def)

lemma scheduleLoop_induct [case_names empty valid stale]:
  assumes empty: "\<And>s. queue s = [] \<Longrightarrow> P s"
    and valid: "\<And>s it entry. tq_peek (queue s) = Some it \<Longrightarrow> data s (q_key it) = Some entry \<Longrightarrow>
                  e_expiresAt entry = Some (q_expiresAt it) \<Longrightarrow> P s"
    and stale: "\<And>s it. tq_peek (queue s) = Some it \<Longrightarrow> stale (data s) it \<Longrightarrow>
                  P (s\<lparr> queue := tq_pop (queue s) \<rparr>) \<Longrightarrow> P s"
  shows "P (s :: ('k, 'v) TempBox)"
proof (induction "length (queue s)" arbitrary: s rule: less_induct)
  case less
  show ?case
  proof (cases "tq_peek (queue s)")
    case None
    then show ?thesis by (simp add: empty tq_peek_None)
  next
    case (Some it)
    then have ne: "queue s \<noteq> []" by auto
    show ?thesis
    proof (cases "stale (data s) it")
      case True
      have "P (s\<lparr> queue := tq_pop (queue s) \<rparr>)"
        by (rule less) (simp add: length_tq_pop ne)
      with Some True show ?thesis by (rule stale)
    next
      case False
      then obtain entry where "data s (q_key it) = Some entry" "e_expiresAt entry = Some (q_expiresAt it)"
        by (auto simp: stale_cases)
      with Some show ?thesis by (rule valid)
    qed
  qed
qed

lemma data_scheduleLoop [simp]: "data (scheduleLoop now s) = data s"
  by (induction s rule: scheduleLoop_induct)
     (simp_all add: scheduleLoop_empty scheduleLoop_stale scheduleLoop_valid)

lemma calls_scheduleLoop [simp]: "calls (scheduleLoop now s) = calls s"
  by (induction s rule: scheduleLoop_induct)
     (simp_all add: scheduleLoop_empty scheduleLoop_stale scheduleLoop_valid)

lemma queue_scheduleLoop:
  "\<exists>n. queue (scheduleLoop now s) = (tq_pop ^^ n) (queue s) \<and> dropped_stale (data s) (queue s) n"
proof (induction s rule: scheduleLoop_induct)
  case (empty s)
  then have "queue (scheduleLoop now s) = (tq_pop ^^ 0) (queue s) \<and> dropped_stale (data s) (queue s) 0"
    by (simp add: scheduleLoop_empty)
  then show ?case ..
next
  case (valid s it entry)
  then have "queue (scheduleLoop now s) = (tq_pop ^^ 0) (queue s) \<and> dropped_stale (data s) (queue s) 0"
    by (simp add: scheduleLoop_valid)
  then show ?case ..
next
  case (stale s it)
  then obtain n where n: "queue (scheduleLoop now s) = (tq_pop ^^ n) (tq_pop (queue s))"
      "dropped_stale (data s) (tq_pop (queue s)) n"
    by (auto simp: scheduleLoop_stale)
  with stale(1,2)
  have "queue (scheduleLoop now s) = (tq_pop ^^ Suc n) (queue s) \<and> dropped_stale (data s) (queue s) (Suc n)"
    by (simp add: funpow_swap1)
  then show ?case ..
qed

lemma armed_upd [simp]:
  "armed now (s\<lparr> queue := q \<rparr>) it = armed now s it"
  "armed now (s\<lparr> timeouts := ts \<rparr>) it = armed now s it"
  "armed now (s\<lparr> calls := c \<rparr>) it = armed now s it"
  by (simp_all add: armed_def)

lemma timers_scheduleLoop:
  "(case tq_peek (queue (scheduleLoop now s)) of
      None \<Rightarrow> timeouts (scheduleLoop now s) = timeouts s \<and> timer (scheduleLoop now s) = timer s
               \<and> next_id (scheduleLoop now s) = next_id s
    | Some it \<Rightarrow> \<not> stale (data s) it
         \<and> timeouts (scheduleLoop now s) = timeouts s @ [armed now s it]
         \<and> timer (scheduleLoop now s) = Some (next_id s)
         \<and> next_id (scheduleLoop now s) = Suc (next_id s))"
proof (induction s rule: scheduleLoop_induct)
  case (empty s)
  then show ?case by (simp add: scheduleLoop_empty)
next
  case (valid s it entry)
  then show ?case by (simp add: scheduleLoop_valid stale_cases armed_def)
next
  case (stale s it)
  then show ?case by (simp add: scheduleLoop_stale split: option.splits)
qed

lemma data_scheduleNext [simp]: "data (scheduleNext now s) = data s"
  by (simp add: scheduleNext_def clearTimeout_def split: option.splits)

lemma calls_scheduleNext [simp]: "calls (scheduleNext now s) = calls s"
  by (simp add: scheduleNext_def clearTimeout_def split: option.splits)

lemma queue_scheduleNext:
  "\<exists>n. queue (scheduleNext now s) = (tq_pop ^^ n) (queue s) \<and> dropped_stale (data s) (queue s) n"
  using queue_scheduleLoop [of now "case timer s of None \<Rightarrow> s | Some h \<Rightarrow> clearTimeout h s"]
  by (simp add: scheduleNext_def clearTimeout_def split: option.splits)

lemma timers_scheduleNext:
  "(case tq_peek (queue (scheduleNext now s)) of
      None \<Rightarrow> timeouts (scheduleNext now s) = cancelled s \<and> timer (scheduleNext now s) = timer s
    | Some it \<Rightarrow> \<not> stale (data s) it
         \<and> timeouts (scheduleNext now s) = cancelled s @ [armed now s it]
         \<and> timer (scheduleNext now s) = Some (next_id s))"
proof (cases "timer s")
  case None
  then show ?thesis
    using timers_scheduleLoop [of now s]
    by (simp add: scheduleNext_def cancelled_def split: option.splits)
next
  case (Some h)
  then show ?thesis
    using timers_scheduleLoop [of now "clearTimeout h s"]
    by (simp add: scheduleNext_def cancelled_def clearTimeout_def split: option.splits)
qed

lemma one_timer_cancelled: "one_timer s \<Longrightarrow> cancelled s = []"
  by (auto simp: one_timer_def cancelled_def split: list.splits option.splits)

lemma one_timer_scheduleNext: "cancelled s = [] \<Longrightarrow> one_timer (scheduleNext now s)"
  using timers_scheduleNext [of now s]
  by (auto simp: one_timer_def armed_def split: option.splits)

lemma cancelled_upd [simp]:
  "cancelled (s\<lparr> data := d \<rparr>) = cancelled s"
  "cancelled (s\<lparr> queue := q \<rparr>) = cancelled s"
  "cancelled (s\<lparr> calls := c \<rparr>) = cancelled s"
  by (simp_all add: cancelled_def cong: option.case_cong)

lemma one_timer_upd [simp]:
  "one_timer (s\<lparr> data := d \<rparr>) = one_timer s"
  "one_timer (s\<lparr> queue := q \<rparr>) = one_timer s"
  "one_timer (s\<lparr> calls := c \<rparr>) = one_timer s"
  by (simp_all add: one_timer_def cong: list.case_cong)

lemma one_timer_new: "one_timer new"
  by (simp add: one_timer_def new_def)

lemma one_timer_setKey: "one_timer s \<Longrightarrow> one_timer (setKey now k v ttl s)"
  by (simp add: setKey_def Let_def one_timer_scheduleNext one_timer_cancelled split: option.splits)

lemma one_timer_get: "one_timer s \<Longrightarrow> one_timer (snd (get now k s))"
  by (simp add: get_def expire_def split: option.splits)

lemma one_timer_has: "one_timer s \<Longrightarrow> one_timer (snd (has now k s))"
  using one_timer_get [of s now k] by (simp add: has_def split_beta)

lemma one_timer_delete: "one_timer s \<Longrightarrow> one_timer (snd (delete k s))"
  by (simp add: delete_def Let_def)

lemma timeouts_stop: "one_timer s \<Longrightarrow> timeouts (stop s) = []"
  using one_timer_cancelled [of s]
  by (simp add: stop_def cancelled_def clearTimeout_def split: option.splits)

lemma one_timer_stop: "one_timer s \<Longrightarrow> one_timer (stop s)"
  by (simp add: one_timer_def timeouts_stop)

lemma one_timer_clear: "one_timer s \<Longrightarrow> one_timer (clear s)"
  by (simp add: clear_def Let_def one_timer_stop)

lemma one_timer_fire:
  assumes "one_timer s" and "fire now h s = Some s'"
  shows "one_timer s'"
proof -
  from assms(2) obtain t where t: "find (\<lambda>t. t_id t = h) (timeouts s) = Some t"
    and s': "s' = timerCallback now (t_key t) (t_entry t)
                    (s\<lparr> timeouts := filter (\<lambda>t. t_id t \<noteq> h) (timeouts s) \<rparr>)"
    by (auto simp: fire_def split: option.splits if_splits)
  from t have "t \<in> set (timeouts s)" and "t_id t = h"
    by (auto simp: find_Some_iff)
  with assms(1) have "timeouts s = [t]"
    by (auto simp: one_timer_def split: list.splits)
  with \<open>t_id t = h\<close> have "filter (\<lambda>t. t_id t \<noteq> h) (timeouts s) = []" by simp
  then show ?thesis
    unfolding s' timerCallback_def
    by (intro one_timer_scheduleNext) (simp add: cancelled_def expire_def split: option.splits)
qed

lemma one_timer_step: "one_timer s \<Longrightarrow> step e s = Some s' \<Longrightarrow> one_timer s'"
proof (cases e)
  case (Pair now op)
  assume "one_timer s" and "step e s = Some s'"
  then show ?thesis unfolding Pair
    by (cases op)
       (auto simp: one_timer_setKey one_timer_get one_timer_has one_timer_delete one_timer_clear
          one_timer_stop one_timer_fire)
qed

lemma one_timer_run: "one_timer s \<Longrightarrow> run es s = Some s' \<Longrightarrow> one_timer s'"
proof (induction es arbitrary: s)
  case Nil
  then show ?case by simp
next
  case (Cons e es)
  then show ?case by (auto split: option.splits dest: one_timer_step)
qed

lemma data_setKey:
  "data (setKey now k v ttl s) =
     (data s)(k \<mapsto> \<lparr> e_value = v,
                        e_expiresAt = (case ttl of None \<Rightarrow> None
                                       | Some x \<Rightarrow> if x \<noteq> 0 then Some (now + x) else None) \<rparr>)"
  by (simp add: setKey_def Let_def split: option.splits)

lemma data_get: "data (snd (get now k' s)) k = data s k \<or> data (snd (get now k' s)) k = None"
  by (simp add: get_def expire_def split: option.splits)

lemma data_has: "data (snd (has now k' s)) k = data s k \<or> data (snd (has now k' s)) k = None"
  using data_get [of now k' s k] by (simp add: has_def split_beta)

lemma data_delete: "data (snd (delete k' s)) = (data s)(k' := None)"
  by (simp add: delete_def Let_def)

lemma data_stop [simp]: "data (stop s) = data s"
  by (simp add: stop_def clearTimeout_def split: option.splits)

lemma data_clear [simp]: "data (clear s) = Map.empty"
  by (simp add: clear_def Let_def)

lemma data_fire: "fire now h s = Some s' \<Longrightarrow> data s' k = data s k \<or> data s' k = None"
  by (auto simp: fire_def timerCallback_def expire_def split: option.splits if_splits)

lemma expiring_step:
  assumes "expiring k X s" and "step ev s = Some s'" and "\<not> sets_key k (snd ev)"
  shows "expiring k X s'"
proof -
  obtain now op where ev: "ev = (now, op)" by (cases ev)
  have "data s' k = data s k \<or> data s' k = None"
  proof (cases op)
    case (Set k' v ttl)
    with assms ev show ?thesis by (auto simp: data_setKey)
  next
    case (Get k')
    with assms ev data_get [of now k' s k] show ?thesis by auto
  next
    case (Has k')
    with assms ev data_has [of now k' s k] show ?thesis by auto
  next
    case (Delete k')
    with assms ev show ?thesis by (auto simp: data_delete split: if_splits)
  next
    case Clear
    with assms ev show ?thesis by auto
  next
    case Stop
    with assms ev show ?thesis by auto
  next
    case (Fire h)
    with assms ev data_fire [of now h s s' k] show ?thesis by auto
  qed
  with assms(1) show ?thesis by (auto simp: expiring_def)
qed

lemma expiring_run:
  "expiring k X s \<Longrightarrow> run es s = Some s' \<Longrightarrow> \<forall>e \<in> set es. \<not> sets_key k (snd e) \<Longrightarrow> expiring k X s'"
proof (induction es arbitrary: s)
  case Nil
  then show ?case by simp
next
  case (Cons e es)
  from Cons.prems(2) obtain s1 where s1: "step e s = Some s1" "run es s1 = Some s'"
    by (auto split: option.splits)
  from Cons.prems(1) s1(1) Cons.prems(3) have "expiring k X s1"
    by (auto intro: expiring_step)
  with Cons.IH s1(2) Cons.prems(3) show ?case by auto
qed

lemma get_expiring:
  assumes "expiring k X s" and "X \<noteq> 0" and "X \<le> now"
  shows "fst (get now k s) = Undefined" and "data (snd (get now k s)) k = None"
  using assms by (auto simp: get_def expiring_def expire_def split: option.splits)

lemma get_absent: "data s k = None \<Longrightarrow> get now k s = (Undefined, s)"
  by (simp add: get_def)

lemma expirations_append [simp]:
  "expirations k (xs @ ys) = expirations k xs @ expirations k ys"
  by (induction k xs rule: expirations.induct) simp_all

lemma pending_ok_upd [simp]:
  "pending_ok k (s\<lparr> calls := c \<rparr>) = pending_ok k s"
  "pending_ok k (s\<lparr> queue := q \<rparr>) = pending_ok k s"
  "pending_ok k (s\<lparr> timer := h \<rparr>) = pending_ok k s"
  by (simp_all add: pending_ok_def)

lemma pending_ok_other: "k' \<noteq> k \<Longrightarrow> pending_ok k (s\<lparr> data := (data s)(k' := x) \<rparr>) = pending_ok k s"
  by (simp add: pending_ok_def)

lemma pending_ok_none: "timeouts s = [] \<Longrightarrow> pending_ok k s"
  by (simp add: pending_ok_def)

lemma pending_ok_filter:
  "pending_ok k s \<Longrightarrow> pending_ok k (s\<lparr> timeouts := filter P (timeouts s) \<rparr>)"
  by (simp add: pending_ok_def)

lemma pending_ok_scheduleNext:
  assumes "cancelled s = []"
  shows "pending_ok k (scheduleNext now s)"
proof (cases "tq_peek (queue (scheduleNext now s))")
  case None
  with timers_scheduleNext [of now s] assms show ?thesis
    by (simp add: pending_ok_none)
next
  case (Some it)
  with timers_scheduleNext [of now s] assms
  have v: "\<not> stale (data s) it" and t: "timeouts (scheduleNext now s) = [armed now s it]"
    by simp_all
  from v obtain entry where e: "data s (q_key it) = Some entry"
      "e_expiresAt entry = Some (q_expiresAt it)"
    by (auto simp: stale_cases)
  then have "armed now s it = \<lparr> t_id = next_id s, t_due = now + max 0 (q_expiresAt it - now),
      t_key = q_key it, t_entry = entry \<rparr>"
    by (simp add: armed_def)
  with t e show ?thesis
    by (auto simp: pending_ok_def)
qed

lemma pending_ok_setKey:
  assumes "one_timer s" and "pending_ok k s" and "k' \<noteq> k"
  shows "pending_ok k (setKey now k' v ttl s)"
proof (cases "case ttl of None \<Rightarrow> False | Some x \<Rightarrow> x \<noteq> 0 \<and> now + x \<noteq> 0")
  case True
  then obtain x where "ttl = Some x" "x \<noteq> 0" "now + x \<noteq> 0"
    by (auto split: option.splits)
  then show ?thesis
    using assms(1)
    by (simp add: setKey_def Let_def pending_ok_scheduleNext one_timer_cancelled)
next
  case False
  then have "setKey now k' v ttl s =
      s\<lparr> data := (data s)(k' \<mapsto> \<lparr> e_value = v, e_expiresAt =
                (case ttl of None \<Rightarrow> None | Some x \<Rightarrow> if x \<noteq> 0 then Some (now + x) else None) \<rparr>),
         calls := calls s @ [OnSet k' v] \<rparr>"
    by (auto simp: setKey_def Let_def split: option.splits)
  with assms(2,3) show ?thesis
    by (simp add: pending_ok_other)
qed

lemma pending_ok_setKey_self:
  assumes "one_timer s" and "ttl \<noteq> 0" and "now + ttl \<noteq> 0"
  shows "pending_ok k' (setKey now k v (Some ttl) s)"
  using assms by (simp add: setKey_def Let_def pending_ok_scheduleNext one_timer_cancelled)

lemma calls_setKey: "calls (setKey now k v ttl s) = calls s @ [OnSet k v]"
  by (simp add: setKey_def Let_def split: option.splits)

lemma get_other:
  assumes "k' \<noteq> k"
  shows "data (snd (get now k' s)) k = data s k"
    and "expirations k (calls (snd (get now k' s))) = expirations k (calls s)"
    and "timeouts (snd (get now k' s)) = timeouts s"
  using assms by (simp_all add: get_def expire_def split: option.splits)

lemma pending_ok_get:
  assumes "pending_ok k s" and "k' \<noteq> k"
  shows "pending_ok k (snd (get now k' s))"
  using assms get_other [OF assms(2), of now s]
  by (simp add: pending_ok_def)

lemma snd_has: "snd (has now k s) = snd (get now k s)"
  by (simp add: has_def split_beta)

lemma delete_other:
  assumes "k' \<noteq> k"
  shows "data (snd (delete k' s)) k = data s k"
    and "expirations k (calls (snd (delete k' s))) = expirations k (calls s)"
    and "timeouts (snd (delete k' s)) = timeouts s"
  using assms by (simp_all add: delete_def Let_def)

lemma pending_ok_delete:
  assumes "pending_ok k s" and "k' \<noteq> k"
  shows "pending_ok k (snd (delete k' s))"
  using assms delete_other [OF assms(2), of s]
  by (simp add: pending_ok_def)

lemma pending_ok_stop: "pending_ok k s \<Longrightarrow> pending_ok k (stop s)"
  by (auto simp: stop_def clearTimeout_def pending_ok_def split: option.splits)

lemma calls_stop [simp]: "calls (stop s) = calls s"
  by (simp add: stop_def clearTimeout_def split: option.splits)

text \<open>What a timer callback does, given the discipline.\<close>

lemma fire_one_timer:
  assumes "one_timer s" and "fire now h s = Some s'"
  obtains t where "timeouts s = [t]" and "t_id t = h" and "t_due t \<le> now"
    and "s' = scheduleNext now (expire (t_key t) (t_entry t)
                 (s\<lparr> timeouts := [], queue := tq_pop (queue s) \<rparr>))"
proof -
  from assms(2) obtain t where t: "find (\<lambda>t. t_id t = h) (timeouts s) = Some t"
    and due: "t_due t \<le> now"
    and s': "s' = timerCallback now (t_key t) (t_entry t)
                    (s\<lparr> timeouts := filter (\<lambda>t. t_id t \<noteq> h) (timeouts s) \<rparr>)"
    by (auto simp: fire_def split: option.splits if_splits)
  from t have "t \<in> set (timeouts s)" and h: "t_id t = h"
    by (auto simp: find_Some_iff)
  with assms(1) have ts: "timeouts s = [t]"
    by (auto simp: one_timer_def split: list.splits)
  with h have "filter (\<lambda>t. t_id t \<noteq> h) (timeouts s) = []" by simp
  with s' have "s' = scheduleNext now (expire (t_key t) (t_entry t)
                 (s\<lparr> timeouts := [], queue := tq_pop (queue s) \<rparr>))"
    by (simp add: timerCallback_def)
  with ts h due that show thesis by blast
qed

lemma cancelled_no_timeouts: "timeouts s = [] \<Longrightarrow> cancelled s = []"
  by (simp add: cancelled_def split: option.splits)

lemma step_key:
  assumes ot: "one_timer s" and po: "pending_ok k s"
    and st: "step (now, op) s = Some s'" and nt: "\<not> touches k op"
  shows "pending_ok k s'"
    and "(data s' k = data s k \<and> expirations k (calls s') = expirations k (calls s))
       \<or> (\<exists>e x. data s k = Some e \<and> e_expiresAt e = Some x \<and> x \<le> now \<and> data s' k = None
              \<and> expirations k (calls s') = expirations k (calls s) @ [e_value e])"
proof -
  have "pending_ok k s' \<and>
     ((data s' k = data s k \<and> expirations k (calls s') = expirations k (calls s))
       \<or> (\<exists>e x. data s k = Some e \<and> e_expiresAt e = Some x \<and> x \<le> now \<and> data s' k = None
              \<and> expirations k (calls s') = expirations k (calls s) @ [e_value e]))"
  proof (cases op)
    case (Set k' v ttl)
    with st nt have s': "s' = setKey now k' v ttl s" and ne: "k' \<noteq> k" by auto
    from ot po ne show ?thesis unfolding s'
      by (simp add: pending_ok_setKey data_setKey calls_setKey)
  next
    case (Get k')
    with st nt have s': "s' = snd (get now k' s)" and ne: "k' \<noteq> k" by auto
    from po ne show ?thesis unfolding s'
      by (simp add: pending_ok_get get_other)
  next
    case (Has k')
    with st nt have s': "s' = snd (get now k' s)" and ne: "k' \<noteq> k" by (auto simp: snd_has)
    from po ne show ?thesis unfolding s'
      by (simp add: pending_ok_get get_other)
  next
    case (Delete k')
    with st nt have s': "s' = snd (delete k' s)" and ne: "k' \<noteq> k" by auto
    from po ne show ?thesis unfolding s'
      by (simp add: pending_ok_delete delete_other)
  next
    case Clear
    with nt show ?thesis by simp
  next
    case Stop
    with st have s': "s' = stop s" by simp
    from po show ?thesis unfolding s'
      by (simp add: pending_ok_stop)
  next
    case (Fire h)
    with st have "fire now h s = Some s'" by simp
    with ot obtain t where t: "timeouts s = [t]" "t_id t = h" "t_due t \<le> now"
      and s': "s' = scheduleNext now (expire (t_key t) (t_entry t)
                 (s\<lparr> timeouts := [], queue := tq_pop (queue s) \<rparr>))"
      by (rule fire_one_timer)
    have p: "pending_ok k s'" unfolding s'
      by (rule pending_ok_scheduleNext) (simp add: cancelled_no_timeouts expire_def)
    show ?thesis
    proof (cases "t_key t = k")
      case True
      with po t(1) obtain x where "data s k = Some (t_entry t)"
          "e_expiresAt (t_entry t) = Some x" "x \<le> t_due t"
        by (auto simp: pending_ok_def)
      with t(3) True p show ?thesis unfolding s'
        by (auto simp: expire_def)
    next
      case False
      with p show ?thesis unfolding s'
        by (simp add: expire_def)
    qed
  qed
  then show "pending_ok k s'"
    and "(data s' k = data s k \<and> expirations k (calls s') = expirations k (calls s))
       \<or> (\<exists>e x. data s k = Some e \<and> e_expiresAt e = Some x \<and> x \<le> now \<and> data s' k = None
              \<and> expirations k (calls s') = expirations k (calls s) @ [e_value e])"
    by blast+
qed

lemma run_key_gone:
  assumes "one_timer s" and "pending_ok k s" and "data s k = None"
    and "run es s = Some s'" and "\<forall>e \<in> set es. \<not> touches k (snd e)"
  shows "data s' k = None \<and> expirations k (calls s') = expirations k (calls s)"
  using assms
proof (induction es arbitrary: s)
  case Nil
  then show ?case by simp
next
  case (Cons ev es)
  obtain now op where ev: "ev = (now, op)" by (cases ev)
  from Cons.prems(4) obtain s1 where s1: "step (now, op) s = Some s1" "run es s1 = Some s'"
    by (auto simp: ev split: option.splits)
  from Cons.prems(5) have nt: "\<not> touches k op" and rest: "\<forall>e \<in> set es. \<not> touches k (snd e)"
    by (simp_all add: ev)
  from Cons.prems(1) s1(1) have ot: "one_timer s1" by (rule one_timer_step)
  from step_key [OF Cons.prems(1,2) s1(1) nt] Cons.prems(3)
  have "pending_ok k s1" "data s1 k = None" "expirations k (calls s1) = expirations k (calls s)"
    by auto
  with Cons.IH [OF ot _ _ s1(2) rest] show ?case by simp
qed

lemma run_key:
  assumes "one_timer s" and "pending_ok k s" and "data s k = Some e0" and "e_expiresAt e0 = Some X"
    and "run es s = Some s'" and "\<forall>e \<in> set es. \<not> touches k (snd e)"
  shows "(data s' k = Some e0 \<and> expirations k (calls s') = expirations k (calls s))
       \<or> (data s' k = None \<and> expirations k (calls s') = expirations k (calls s) @ [e_value e0]
            \<and> (\<exists>e \<in> set es. X \<le> fst e))"
  using assms
proof (induction es arbitrary: s)
  case Nil
  then show ?case by simp
next
  case (Cons ev es)
  obtain now op where ev: "ev = (now, op)" by (cases ev)
  from Cons.prems(5) obtain s1 where s1: "step (now, op) s = Some s1" "run es s1 = Some s'"
    by (auto simp: ev split: option.splits)
  from Cons.prems(6) have nt: "\<not> touches k op" and rest: "\<forall>e \<in> set es. \<not> touches k (snd e)"
    by (simp_all add: ev)
  from Cons.prems(1) s1(1) have ot: "one_timer s1" by (rule one_timer_step)
  note sk = step_key [OF Cons.prems(1,2) s1(1) nt]
  from sk(2) Cons.prems(3,4)
  consider (same) "data s1 k = Some e0" "expirations k (calls s1) = expirations k (calls s)"
    | (gone) "X \<le> now" "data s1 k = None"
        "expirations k (calls s1) = expirations k (calls s) @ [e_value e0]"
    by auto
  then show ?case
  proof cases
    case same
    from Cons.IH [OF ot sk(1) same(1) Cons.prems(4) s1(2) rest] same(2)
    show ?thesis by (auto simp: ev)
  next
    case gone
    from run_key_gone [OF ot sk(1) gone(2) s1(2) rest] gone(1,3)
    show ?thesis by (auto simp: ev)
  qed
qed

lemma kept_scheduleLoop:
  "x \<in> set (queue s) \<Longrightarrow> \<not> stale (data s) x \<Longrightarrow> x \<in> set (queue (scheduleLoop now s))"
proof (induction s rule: scheduleLoop_induct)
  case (empty s)
  then show ?case by simp
next
  case (valid s it entry)
  then show ?case by (simp add: scheduleLoop_valid)
next
  case (stale s it)
  from stale(2,5) have "x \<noteq> it" by auto
  with stale(1,4) have "x \<in> set (tq_pop (queue s))"
    by (simp add: tq_pop_def)
  with stale show ?case by (simp add: scheduleLoop_stale)
qed

lemma length_scheduleLoop: "length (queue (scheduleLoop now s)) \<le> length (queue s)"
proof (induction s rule: scheduleLoop_induct)
  case (empty s)
  then show ?case by (simp add: scheduleLoop_empty)
next
  case (valid s it entry)
  then show ?case by (simp add: scheduleLoop_valid)
next
  case (stale s it)
  from stale(1) have "queue s \<noteq> []" by auto
  then have "length (tq_pop (queue s)) < length (queue s)" by (rule length_tq_pop)
  with stale show ?case by (simp add: scheduleLoop_stale)
qed

lemma kept_scheduleNext:
  "x \<in> set (queue s) \<Longrightarrow> \<not> stale (data s) x \<Longrightarrow> x \<in> set (queue (scheduleNext now s))"
  by (simp add: scheduleNext_def clearTimeout_def kept_scheduleLoop split: option.splits)

lemma length_scheduleNext: "length (queue (scheduleNext now s)) \<le> length (queue s)"
  using length_scheduleLoop [of now "case timer s of None \<Rightarrow> s | Some h \<Rightarrow> clearTimeout h s"]
  by (simp add: scheduleNext_def clearTimeout_def split: option.splits)

lemma armed_scheduleNext:
  assumes c: "cancelled s = []" and d: "data s k = Some e0" and x: "e_expiresAt e0 = Some X"
    and q: "\<lparr> q_expiresAt = X, q_key = k \<rparr> \<in> set (queue s)" and n: "now \<le> X"
  shows "\<exists>t it. timeouts (scheduleNext now s) = [t] \<and> tq_peek (queue (scheduleNext now s)) = Some it
           \<and> t_key t = q_key it \<and> t_due t \<le> X"
    and "\<lparr> q_expiresAt = X, q_key = k \<rparr> \<in> set (queue (scheduleNext now s))"
proof -
  from d x have "\<not> stale (data s) \<lparr> q_expiresAt = X, q_key = k \<rparr>"
    by (simp add: stale_def)
  with q show in_q: "\<lparr> q_expiresAt = X, q_key = k \<rparr> \<in> set (queue (scheduleNext now s))"
    by (rule kept_scheduleNext)
  then have "queue (scheduleNext now s) \<noteq> []" by auto
  then obtain it where it: "tq_peek (queue (scheduleNext now s)) = Some it"
    by (auto simp: tq_peek_def)
  with timers_scheduleNext [of now s] c
  have t: "timeouts (scheduleNext now s) = [armed now s it]" by simp
  from it in_q have "q_expiresAt it \<le> X"
    by (auto dest: tq_peek_min)
  with n have "t_due (armed now s it) \<le> X" by (simp add: armed_def)
  moreover have "t_key (armed now s it) = q_key it" by (simp add: armed_def)
  ultimately show "\<exists>t it. timeouts (scheduleNext now s) = [t] \<and> tq_peek (queue (scheduleNext now s)) = Some it
           \<and> t_key t = q_key it \<and> t_due t \<le> X"
    using t it by blast
qed

lemma fire_pending:
  assumes "timeouts s = [t]" and "t_due t \<le> now"
  shows "fire now (t_id t) s = Some (scheduleNext now (expire (t_key t) (t_entry t)
                 (s\<lparr> timeouts := [], queue := tq_pop (queue s) \<rparr>)))"
  using assms by (simp add: fire_def timerCallback_def)

lemma expiry_reached:
  assumes "one_timer s" and "pending_ok k s" and "data s k = Some e0" and "e_expiresAt e0 = Some X"
    and "\<lparr> q_expiresAt = X, q_key = k \<rparr> \<in> set (queue s)"
    and "timeouts s = [t]" and "tq_peek (queue s) = Some it" and "t_key t = q_key it"
    and "t_due t \<le> X"
  shows "\<exists>es s'. run es s = Some s' \<and> (\<forall>e \<in> set es. is_fire (snd e) \<and> fst e \<le> X)
           \<and> data s' k = None
           \<and> expirations k (calls s') = expirations k (calls s) @ [e_value e0]"
  using assms
proof (induction "length (queue s)" arbitrary: s t it rule: less_induct)
  case less
  show ?case
  proof (cases "q_key it = k")
    case True
    with less.prems(2,3,4,6,8) have te: "t_entry t = e0" and "X \<le> t_due t"
      by (auto simp: pending_ok_def)
    with less.prems(9) have due: "t_due t \<le> X" by simp
    let ?s' = "scheduleNext X (expire (t_key t) (t_entry t)
                 (s\<lparr> timeouts := [], queue := tq_pop (queue s) \<rparr>))"
    from fire_pending [OF less.prems(6) due]
    have "run [(X, Fire (t_id t))] s = Some ?s'" by simp
    moreover have "data ?s' k = None"
      using True less.prems(8) by (simp add: expire_def)
    moreover have "expirations k (calls ?s') = expirations k (calls s) @ [e_value e0]"
      using True less.prems(8) te by (simp add: expire_def)
    moreover have "\<forall>e \<in> set [(X, Fire (t_id t) :: ('a, 'b) op)]. is_fire (snd e) \<and> fst e \<le> X"
      by simp
    ultimately show ?thesis by blast
  next
    case False
    with less.prems(8) have ne: "t_key t \<noteq> k" by simp
    let ?m = "expire (t_key t) (t_entry t) (s\<lparr> timeouts := [], queue := tq_pop (queue s) \<rparr>)"
    let ?s1 = "scheduleNext (t_due t) ?m"
    have f: "fire (t_due t) (t_id t) s = Some ?s1"
      by (rule fire_pending [OF less.prems(6)]) simp
    have c: "cancelled ?m = []"
      by (simp add: cancelled_no_timeouts expire_def)
    have d: "data ?m k = Some e0"
      using ne less.prems(3) by (simp add: expire_def)
    have "\<lparr> q_expiresAt = X, q_key = k \<rparr> \<noteq> it" using False by auto
    with less.prems(5,7) have q: "\<lparr> q_expiresAt = X, q_key = k \<rparr> \<in> set (queue ?m)"
      by (simp add: expire_def tq_pop_def)
    from armed_scheduleNext [OF c d less.prems(4) q less.prems(9)]
    obtain t' it' where a: "timeouts ?s1 = [t']" "tq_peek (queue ?s1) = Some it'"
        "t_key t' = q_key it'" "t_due t' \<le> X"
      and q1: "\<lparr> q_expiresAt = X, q_key = k \<rparr> \<in> set (queue ?s1)"
      by blast
    have ot: "one_timer ?s1" using c by (rule one_timer_scheduleNext)
    have po: "pending_ok k ?s1" using c by (rule pending_ok_scheduleNext)
    have d1: "data ?s1 k = Some e0" using d by simp
    from less.prems(7) have "queue s \<noteq> []" by auto
    then have "length (tq_pop (queue s)) < length (queue s)" by (rule length_tq_pop)
    moreover have "length (queue ?s1) \<le> length (queue ?m)" by (rule length_scheduleNext)
    ultimately have len: "length (queue ?s1) < length (queue s)"
      by (simp add: expire_def)
    from less.hyps [OF len ot po d1 less.prems(4) q1 a]
    obtain es s' where r: "run es ?s1 = Some s'"
      and fs: "\<forall>e \<in> set es. is_fire (snd e) \<and> fst e \<le> X"
      and g: "data s' k = None"
      and x: "expirations k (calls s') = expirations k (calls ?s1) @ [e_value e0]"
      by blast
    have "expirations k (calls ?s1) = expirations k (calls s)"
      using ne by (simp add: expire_def)
    with x have x': "expirations k (calls s') = expirations k (calls s) @ [e_value e0]" by simp
    from f r have "run ((t_due t, Fire (t_id t)) # es) s = Some s'" by simp
    moreover from fs less.prems(9)
    have "\<forall>e \<in> set ((t_due t, Fire (t_id t)) # es). is_fire (snd e) \<and> fst e \<le> X" by simp
    ultimately show ?thesis using g x' by blast
  qed
qed

lemma setKey_ttl:
  assumes "ttl \<noteq> 0" and "now + ttl \<noteq> 0"
  shows "setKey now k v (Some ttl) s =
     (scheduleNext now
        (s\<lparr> data := (data s)(k \<mapsto> \<lparr> e_value = v, e_expiresAt = Some (now + ttl) \<rparr>),
            queue := tq_push \<lparr> q_expiresAt = now + ttl, q_key = k \<rparr> (queue s) \<rparr>))
       \<lparr> calls := calls s @ [OnSet k v] \<rparr>"
  using assms by (simp add: setKey_def Let_def)

subsection \<open>The claims\<close>

text \<open>
  C1. The code invokes \<open>onExpire\<close> for a deleted key. \<open>set("k", 1, 100)\<close> at instant 0
  arms a timeout for \<open>k\<close>; \<open>delete("k")\<close> at instant 50 removes the entry and leaves the
  timeout pending; its callback runs at instant 100 and calls \<open>_expire\<close> with the entry it
  captured.
\<close>

theorem delete_then_timer_invokes_onExpire:
  "map_option calls
     (run [(0, Set ''k'' (Val (1::nat)) (Some 100)), (50, Delete ''k''), (100, Fire 0)]
          (new :: (string, nat) TempBox))
   = Some [OnSet ''k'' (Val 1), OnDelete ''k'', OnExpire ''k'' (Val 1)]"
  by (simp add: tb_defs)

text \<open>
  C2. The code removes a key that was overwritten without a TTL. \<open>set("k", 1, 100)\<close> at
  instant 0 arms a timeout for \<open>k\<close>; \<open>set("k", 2)\<close> at instant 10 replaces the entry and,
  having no expiry, does not reschedule; the callback of the old timeout runs at instant
  100, deletes the new entry and reports the old value to \<open>onExpire\<close>. From then on
  \<open>get("k")\<close> is \<open>undefined\<close> and \<open>has("k")\<close> is false.
\<close>

theorem no_ttl_overwrite_removed_by_old_timer:
  "map_option (\<lambda>s. (fst (get 100 ''k'' s), fst (has 100 ''k'' s), calls s))
     (run [(0, Set ''k'' (Val (1::nat)) (Some 100)), (10, Set ''k'' (Val 2) None), (100, Fire 0)]
          (new :: (string, nat) TempBox))
   = Some (Undefined, False, [OnSet ''k'' (Val 1), OnSet ''k'' (Val 2), OnExpire ''k'' (Val 1)])"
  by (simp add: tb_defs)

text \<open>
  C3. The code invokes \<open>onExpire\<close> twice for one expiration. \<open>set("k", 1, 100)\<close> at
  instant 0 arms a timeout due at 100; a \<open>get("k")\<close> that reads the clock at 100 before
  the event loop has run the callback expires the key and invokes \<open>onExpire\<close>; the
  timeout is still pending, and its callback invokes \<open>onExpire\<close> again.
\<close>

theorem lazy_then_timer_invokes_onExpire_twice:
  "map_option calls
     (run [(0, Set ''k'' (Val (1::nat)) (Some 100)), (100, Get ''k''), (100, Fire 0)]
          (new :: (string, nat) TempBox))
   = Some [OnSet ''k'' (Val 1), OnExpire ''k'' (Val 1), OnExpire ''k'' (Val 1)]"
  by (simp add: tb_defs)

text \<open>
  C4 as stated includes \<open>ttl = 0\<close>. The test \<open>ttlMs ? now + ttlMs : null\<close> takes 0 for
  an omitted TTL: the entry is stored without expiry, and at instant 5 (past the TTL of 0)
  \<open>get\<close> still returns the value and \<open>has\<close> is true.
\<close>

theorem zero_ttl_never_expires:
  "fst (get 5 ''k'' (setKey 0 ''k'' (Val (1::nat)) (Some 0) (new :: (string, nat) TempBox))) = Val 1
   \<and> fst (has 5 ''k'' (snd (get 5 ''k'' (setKey 0 ''k'' (Val (1::nat)) (Some 0) (new :: (string, nat) TempBox))))) = True"
  by (simp add: tb_defs)

text \<open>
  C4 (amended). After \<open>set(k, v, ttl)\<close> at instant \<open>t0\<close> with a \<open>ttl\<close> that is not 0
  and an expiry instant \<open>t0 + ttl\<close> that is not 0, let any events follow (reads, deletes,
  clears, stops, timer callbacks, sets of other keys), none of them a \<open>set\<close> of \<open>k\<close>.
  Then at every instant \<open>now\<close> with \<open>t0 + ttl \<le> now\<close>, \<open>get(k)\<close> returns
  \<open>undefined\<close> and a following \<open>has(k)\<close> returns false.
\<close>

theorem get_absent_after_ttl:
  assumes "ttl \<noteq> 0" and "t0 + ttl \<noteq> 0"
    and "run es (setKey t0 k v (Some ttl) s) = Some s1"
    and "\<forall>e \<in> set es. \<not> sets_key k (snd e)"
    and "t0 + ttl \<le> now"
  shows "fst (get now k s1) = Undefined \<and> fst (has now' k (snd (get now k s1))) = False"
proof -
  have "expiring k (t0 + ttl) (setKey t0 k v (Some ttl) s)"
    using assms(1) by (simp add: expiring_def data_setKey)
  then have e: "expiring k (t0 + ttl) s1"
    using assms(3,4) by (rule expiring_run)
  from get_expiring [OF e assms(2,5)] show ?thesis
    by (simp add: has_def get_absent)
qed

text \<open>An instance: a TTL of 100 set at instant 0, the timer callback at 100, a read at
  150.\<close>

theorem get_absent_after_ttl_witness:
  "(100::int) \<noteq> 0 \<and> (0::int) + 100 \<noteq> 0
   \<and> run [(100, Fire 0)] (setKey 0 ''k'' (Val (1::nat)) (Some 100) (new :: (string, nat) TempBox))
       = Some (the (run [(100, Fire 0)] (setKey 0 ''k'' (Val 1) (Some 100) new)))
   \<and> \<not> sets_key ''k'' (Fire 0 :: (string, nat) op)
   \<and> (0::int) + 100 \<le> 150
   \<and> fst (get 150 ''k'' (the (run [(100, Fire 0)] (setKey 0 ''k'' (Val (1::nat)) (Some 100)
                                    (new :: (string, nat) TempBox))))) = Undefined
   \<and> fst (has 150 ''k'' (snd (get 150 ''k'' (the (run [(100, Fire 0)]
             (setKey 0 ''k'' (Val (1::nat)) (Some 100) (new :: (string, nat) TempBox))))))) = False"
proof -
  have r: "run [(100, Fire 0)] (setKey 0 ''k'' (Val (1::nat)) (Some 100) (new :: (string, nat) TempBox))
       = Some (the (run [(100, Fire 0)] (setKey 0 ''k'' (Val 1) (Some 100) new)))"
    by (simp add: tb_defs)
  show ?thesis
    using get_absent_after_ttl [OF _ _ r, of 150 150] r by simp
qed

text \<open>
  C5. \<open>_scheduleNext\<close> at instant \<open>now\<close> clears the timeout of the handle in \<open>timer\<close>
  and then pops some number \<open>n\<close> of items off the queue, each of them the minimum when it
  is peeked and each stale (no entry for its key, or an entry with another \<open>expiresAt\<close>);
  the table is not touched. It stops either on an empty queue, with no timeout added, or on
  the first item that is not stale, which stays in the queue and for which one timeout is
  registered, due at \<open>now + max(0, expiresAt - now)\<close>, its handle stored in \<open>timer\<close>.
\<close>

theorem scheduleNext_reconciles:
  "\<exists>n. queue (scheduleNext now s) = (tq_pop ^^ n) (queue s)
      \<and> dropped_stale (data s) (queue s) n
      \<and> data (scheduleNext now s) = data s
      \<and> (case tq_peek (queue (scheduleNext now s)) of
           None \<Rightarrow> timeouts (scheduleNext now s) = cancelled s
         | Some it \<Rightarrow> \<not> stale (data s) it
              \<and> timeouts (scheduleNext now s) = cancelled s @ [armed now s it]
              \<and> timer (scheduleNext now s) = Some (next_id s))"
  using queue_scheduleNext [of now s] timers_scheduleNext [of now s]
  by (auto split: option.splits)

text \<open>An instance: \<open>a\<close> (expiry 5) and \<open>b\<close> (expiry 7) are set, \<open>a\<close> is deleted.
  Rescheduling at instant 2 pops the item of \<open>a\<close>, which is stale, and arms \<open>b\<close> with
  delay 5.\<close>

theorem scheduleNext_reconciles_witness:
  "dropped_stale
     (data (the (run [(0, Set ''a'' (Val (0::nat)) (Some 5)), (0, Set ''b'' (Val 1) (Some 7)),
                      (1, Delete ''a'')] (new :: (string, nat) TempBox))))
     (queue (the (run [(0, Set ''a'' (Val (0::nat)) (Some 5)), (0, Set ''b'' (Val 1) (Some 7)),
                      (1, Delete ''a'')] (new :: (string, nat) TempBox)))) 1
   \<and> queue (scheduleNext 2 (the (run [(0, Set ''a'' (Val (0::nat)) (Some 5)),
               (0, Set ''b'' (Val 1) (Some 7)), (1, Delete ''a'')] (new :: (string, nat) TempBox))))
       = [\<lparr> q_expiresAt = 7, q_key = ''b'' \<rparr>]
   \<and> timeouts (scheduleNext 2 (the (run [(0, Set ''a'' (Val (0::nat)) (Some 5)),
               (0, Set ''b'' (Val 1) (Some 7)), (1, Delete ''a'')] (new :: (string, nat) TempBox))))
       = [\<lparr> t_id = 2, t_due = 7, t_key = ''b'', t_entry = \<lparr> e_value = Val 1, e_expiresAt = Some 7 \<rparr> \<rparr>]
   \<and> (\<exists>n. queue (scheduleNext 2 (the (run [(0, Set ''a'' (Val (0::nat)) (Some 5)),
               (0, Set ''b'' (Val 1) (Some 7)), (1, Delete ''a'')] (new :: (string, nat) TempBox))))
           = (tq_pop ^^ n) (queue (the (run [(0, Set ''a'' (Val (0::nat)) (Some 5)),
               (0, Set ''b'' (Val 1) (Some 7)), (1, Delete ''a'')] (new :: (string, nat) TempBox)))))"
  using scheduleNext_reconciles [of 2 "the (run [(0, Set ''a'' (Val (0::nat)) (Some 5)),
               (0, Set ''b'' (Val 1) (Some 7)), (1, Delete ''a'')] (new :: (string, nat) TempBox))"]
  by (auto simp: tb_defs stale_def)

text \<open>
  C6. In any state the store can reach, let \<open>set(k, v1, 100)\<close> at instant \<open>t1\<close> be
  followed by \<open>set(k, v2, 10000)\<close> at instant \<open>t2\<close>, \<open>t1 \<le> t2\<close> (with an expiry
  instant \<open>t2 + 10000\<close> other than 0, the number JavaScript takes for false). Let any
  events follow that are not calls on \<open>k\<close> nor a \<open>clear\<close>: timer callbacks, \<open>stop\<close>,
  calls on other keys. Then
  \<^item> as long as no event is later than \<open>t1 + 100\<close>, \<open>k\<close> still holds \<open>v2\<close> with expiry
    \<open>t2 + 10000\<close>, \<open>get(k)\<close> at \<open>t1 + 100\<close> returns \<open>v2\<close>, and \<open>onExpire\<close> has not
    been invoked for \<open>k\<close>;
  \<^item> at any point, either \<open>k\<close> still holds \<open>v2\<close> and \<open>onExpire\<close> has not been invoked
    for \<open>k\<close>, or \<open>k\<close> is gone, \<open>onExpire\<close> has been invoked for \<open>k\<close> exactly once, with
    \<open>v2\<close>, and some event happened at or after \<open>t2 + 10000\<close>;
  \<^item> the expiry does come: there is a sequence of timer callbacks, none later than
    \<open>t2 + 10000\<close>, after which \<open>onExpire(k, v2)\<close> has been invoked.
  That the second \<open>set\<close> comes within 100 ms of the first is not needed.
\<close>

theorem overwrite_reschedules:
  fixes s :: "('k, 'v) TempBox" and k :: 'k and v1 v2 :: "'v jsvalue"
  assumes "run es0 new = Some s" and "t1 \<le> t2" and "t2 + 10000 \<noteq> 0"
  defines "s2 \<equiv> setKey t2 k v2 (Some 10000) (setKey t1 k v1 (Some 100) s)"
    and "e2 \<equiv> \<lparr> e_value = v2, e_expiresAt = Some (t2 + 10000) \<rparr>"
  shows
    "(\<forall>es s3. run es s2 = Some s3 \<and> (\<forall>e \<in> set es. \<not> touches k (snd e) \<and> fst e \<le> t1 + 100) \<longrightarrow>
        data s3 k = Some e2 \<and> expirations k (calls s3) = expirations k (calls s)
        \<and> fst (get (t1 + 100) k s3) = v2)
   \<and> (\<forall>es s3. run es s2 = Some s3 \<and> (\<forall>e \<in> set es. \<not> touches k (snd e)) \<longrightarrow>
        (data s3 k = Some e2 \<and> expirations k (calls s3) = expirations k (calls s))
      \<or> (data s3 k = None \<and> expirations k (calls s3) = expirations k (calls s) @ [v2]
          \<and> (\<exists>e \<in> set es. t2 + 10000 \<le> fst e)))
   \<and> (\<exists>es s3. run es s2 = Some s3 \<and> (\<forall>e \<in> set es. is_fire (snd e) \<and> fst e \<le> t2 + 10000)
        \<and> data s3 k = None \<and> expirations k (calls s3) = expirations k (calls s) @ [v2])"
proof -
  let ?s1 = "setKey t1 k v1 (Some 100) s"
  let ?X = "t2 + 10000"
  have "one_timer s" using one_timer_new assms(1) by (rule one_timer_run)
  then have ot1: "one_timer ?s1" by (rule one_timer_setKey)
  then have ot2: "one_timer s2" unfolding s2_def by (rule one_timer_setKey)
  have po: "pending_ok k s2" unfolding s2_def
    using ot1 _ assms(3) by (rule pending_ok_setKey_self) simp
  have d: "data s2 k = Some e2"
    by (simp add: s2_def e2_def data_setKey)
  have x: "e_expiresAt e2 = Some ?X" "e_value e2 = v2"
    by (simp_all add: e2_def)
  have c: "expirations k (calls s2) = expirations k (calls s)"
    by (simp add: s2_def calls_setKey)
  have safe: "(data s3 k = Some e2 \<and> expirations k (calls s3) = expirations k (calls s))
      \<or> (data s3 k = None \<and> expirations k (calls s3) = expirations k (calls s) @ [v2]
          \<and> (\<exists>e \<in> set es. ?X \<le> fst e))"
    if "run es s2 = Some s3" and "\<forall>e \<in> set es. \<not> touches k (snd e)" for es s3
    using run_key [OF ot2 po d x(1) that] c x(2) by simp
  have early: "data s3 k = Some e2 \<and> expirations k (calls s3) = expirations k (calls s)
        \<and> fst (get (t1 + 100) k s3) = v2"
    if r: "run es s2 = Some s3" and u: "\<forall>e \<in> set es. \<not> touches k (snd e) \<and> fst e \<le> t1 + 100"
    for es s3
  proof -
    from u have "\<forall>e \<in> set es. \<not> touches k (snd e)" and "\<not> (\<exists>e \<in> set es. ?X \<le> fst e)"
      using assms(2) by auto
    with safe [OF r] have "data s3 k = Some e2"
        "expirations k (calls s3) = expirations k (calls s)"
      by auto
    moreover from this(1) assms(2) have "fst (get (t1 + 100) k s3) = v2"
      by (simp add: get_def e2_def)
    ultimately show ?thesis by simp
  qed
  let ?m = "?s1\<lparr> data := (data ?s1)(k \<mapsto> e2),
                 queue := tq_push \<lparr> q_expiresAt = ?X, q_key = k \<rparr> (queue ?s1) \<rparr>"
  have s2: "s2 = (scheduleNext t2 ?m)\<lparr> calls := calls ?s1 @ [OnSet k v2] \<rparr>"
    unfolding s2_def e2_def using assms(3) by (simp add: setKey_ttl)
  have cm: "cancelled ?m = []" using ot1 by (simp add: one_timer_cancelled)
  have dm: "data ?m k = Some e2" by simp
  have qm: "\<lparr> q_expiresAt = ?X, q_key = k \<rparr> \<in> set (queue ?m)" by (simp add: tq_push_def)
  have n: "t2 \<le> ?X" by simp
  from armed_scheduleNext [OF cm dm x(1) qm n]
  obtain t it where "timeouts (scheduleNext t2 ?m) = [t]"
      "tq_peek (queue (scheduleNext t2 ?m)) = Some it" "t_key t = q_key it" "t_due t \<le> ?X"
    and "\<lparr> q_expiresAt = ?X, q_key = k \<rparr> \<in> set (queue (scheduleNext t2 ?m))"
    by auto
  then have a: "\<lparr> q_expiresAt = ?X, q_key = k \<rparr> \<in> set (queue s2)" "timeouts s2 = [t]"
      "tq_peek (queue s2) = Some it" "t_key t = q_key it" "t_due t \<le> ?X"
    by (simp_all add: s2)
  from expiry_reached [OF ot2 po d x(1) a] c x(2)
  have live: "\<exists>es s3. run es s2 = Some s3 \<and> (\<forall>e \<in> set es. is_fire (snd e) \<and> fst e \<le> ?X)
        \<and> data s3 k = None \<and> expirations k (calls s3) = expirations k (calls s) @ [v2]"
    by simp
  from early safe live show ?thesis by blast
qed

text \<open>An instance on a new store: sets at instants 0 and 50. At instant 100 neither handle
  can run (the first timeout was cleared, the second is not due); the callback of the
  second timeout at 10050 expires the key with the value 2.\<close>

theorem overwrite_reschedules_witness:
  "run [] (new :: (string, nat) TempBox) = Some new \<and> (0::int) \<le> 50 \<and> (50::int) + 10000 \<noteq> 0
   \<and> run [(10050, Fire 1)]
        (setKey 50 ''k'' (Val 2) (Some 10000) (setKey 0 ''k'' (Val (1::nat)) (Some 100)
           (new :: (string, nat) TempBox)))
       = Some (the (run [(10050, Fire 1)]
        (setKey 50 ''k'' (Val 2) (Some 10000) (setKey 0 ''k'' (Val 1) (Some 100) new))))
   \<and> \<not> touches ''k'' (Fire 1 :: (string, nat) op)
   \<and> data (the (run [(10050, Fire 1)]
        (setKey 50 ''k'' (Val 2) (Some 10000) (setKey 0 ''k'' (Val (1::nat)) (Some 100)
           (new :: (string, nat) TempBox))))) ''k'' = None
   \<and> expirations ''k'' (calls (the (run [(10050, Fire 1)]
        (setKey 50 ''k'' (Val 2) (Some 10000) (setKey 0 ''k'' (Val (1::nat)) (Some 100)
           (new :: (string, nat) TempBox)))))) = [Val 2]
   \<and> fire 100 0 (setKey 50 ''k'' (Val 2) (Some 10000) (setKey 0 ''k'' (Val (1::nat)) (Some 100)
           (new :: (string, nat) TempBox))) = None
   \<and> fire 100 1 (setKey 50 ''k'' (Val 2) (Some 10000) (setKey 0 ''k'' (Val (1::nat)) (Some 100)
           (new :: (string, nat) TempBox))) = None"
proof -
  have r0: "run [] (new :: (string, nat) TempBox) = Some new" by simp
  have le: "(0::int) \<le> 50" and nz: "(50::int) + 10000 \<noteq> 0" by simp_all
  note th = overwrite_reschedules [OF r0 le nz, of "''k''" "Val 2" "Val 1"]
  show ?thesis
    using th by (simp add: tb_defs)
qed

text \<open>
  C7. In every state the store can reach, \<open>stop()\<close> leaves no timeout pending and sets
  \<open>timer\<close> to null; the table, the queue and the callbacks invoked are as before. A
  \<open>get\<close> after \<open>stop()\<close> returns what it would have returned without it and leaves the
  same table; in particular a key whose expiry instant \<open>x\<close> has passed (\<open>x \<le> now\<close>,
  \<open>x\<close> truthy) reads as \<open>undefined\<close>, is removed, and \<open>onExpire\<close> is invoked for it.
\<close>

theorem stop_only_cancels_timer:
  assumes "run es new = Some s"
  shows "timeouts (stop s) = [] \<and> timer (stop s) = None
     \<and> data (stop s) = data s \<and> queue (stop s) = queue s \<and> calls (stop s) = calls s
     \<and> fst (get now k (stop s)) = fst (get now k s)
     \<and> data (snd (get now k (stop s))) = data (snd (get now k s))
     \<and> (data s k = Some e \<and> e_expiresAt e = Some x \<and> x \<noteq> 0 \<and> x \<le> now \<longrightarrow>
          fst (get now k (stop s)) = Undefined \<and> data (snd (get now k (stop s))) k = None
          \<and> calls (snd (get now k (stop s))) = calls s @ [OnExpire k (e_value e)])"
proof -
  have "one_timer s" using one_timer_new assms by (rule one_timer_run)
  then have "timeouts (stop s) = []" by (rule timeouts_stop)
  moreover have "timer (stop s) = None" "queue (stop s) = queue s" "calls (stop s) = calls s"
    by (simp_all add: stop_def clearTimeout_def split: option.splits)
  moreover have "fst (get now k (stop s)) = fst (get now k s)"
    "data (snd (get now k (stop s))) = data (snd (get now k s))"
    by (simp_all add: get_def expire_def split: option.splits)
  moreover have "data s k = Some e \<and> e_expiresAt e = Some x \<and> x \<noteq> 0 \<and> x \<le> now \<longrightarrow>
          fst (get now k (stop s)) = Undefined \<and> data (snd (get now k (stop s))) k = None
          \<and> calls (snd (get now k (stop s))) = calls s @ [OnExpire k (e_value e)]"
    using \<open>calls (stop s) = calls s\<close> by (simp add: get_def expire_def)
  ultimately show ?thesis by simp
qed

text \<open>An instance: a key set at instant 0 with a TTL of 100, \<open>stop()\<close>, a read at 150.\<close>

theorem stop_only_cancels_timer_witness:
  "run [(0, Set ''k'' (Val (1::nat)) (Some 100))] (new :: (string, nat) TempBox)
     = Some (the (run [(0, Set ''k'' (Val 1) (Some 100))] new))
   \<and> timeouts (the (run [(0, Set ''k'' (Val (1::nat)) (Some 100))] (new :: (string, nat) TempBox))) \<noteq> []
   \<and> data (the (run [(0, Set ''k'' (Val (1::nat)) (Some 100))] (new :: (string, nat) TempBox))) ''k''
       = Some \<lparr> e_value = Val 1, e_expiresAt = Some 100 \<rparr>
   \<and> timeouts (stop (the (run [(0, Set ''k'' (Val (1::nat)) (Some 100))] (new :: (string, nat) TempBox)))) = []
   \<and> fst (get 150 ''k'' (stop (the (run [(0, Set ''k'' (Val (1::nat)) (Some 100))]
                                   (new :: (string, nat) TempBox))))) = Undefined
   \<and> data (snd (get 150 ''k'' (stop (the (run [(0, Set ''k'' (Val (1::nat)) (Some 100))]
                                   (new :: (string, nat) TempBox)))))) ''k'' = None"
proof -
  have r: "run [(0, Set ''k'' (Val (1::nat)) (Some 100))] (new :: (string, nat) TempBox)
     = Some (the (run [(0, Set ''k'' (Val 1) (Some 100))] new))"
    by simp
  have d: "data (the (run [(0, Set ''k'' (Val (1::nat)) (Some 100))] (new :: (string, nat) TempBox))) ''k''
       = Some \<lparr> e_value = Val 1, e_expiresAt = Some 100 \<rparr>"
    by (simp add: data_setKey)
  have t: "timeouts (the (run [(0, Set ''k'' (Val (1::nat)) (Some 100))] (new :: (string, nat) TempBox))) \<noteq> []"
    by (simp add: tb_defs)
  have a: "(100::int) \<noteq> 0 \<and> (100::int) \<le> 150" by simp
  note th = stop_only_cancels_timer [OF r, of 150 "''k''" "\<lparr> e_value = Val 1, e_expiresAt = Some 100 \<rparr>" 100]
  have e: "e_expiresAt \<lparr> e_value = Val (1::nat), e_expiresAt = Some 100 \<rparr> = Some 100" by simp
  from th r d t a e show ?thesis by blast
qed

text \<open>
  C8. \<open>delete(k)\<close> returns true exactly when the table has an entry for \<open>k\<close>, whatever
  the entry's \<open>expiresAt\<close> (so also when the TTL has passed and nothing has purged the
  entry yet); it removes that entry and no other; the only callback it invokes is
  \<open>onDelete(k)\<close>, once, when the key was present, and none when it was absent. The call
  leaves the queue and the pending timeout as they are.
\<close>

theorem delete_reports_presence:
  "fst (delete k s) = (data s k \<noteq> None)
   \<and> data (snd (delete k s)) = (data s)(k := None)
   \<and> calls (snd (delete k s)) = (if data s k = None then calls s else calls s @ [OnDelete k])
   \<and> queue (snd (delete k s)) = queue s
   \<and> timeouts (snd (delete k s)) = timeouts s
   \<and> timer (snd (delete k s)) = timer s"
  by (simp add: delete_def Let_def)

text \<open>
  C9. After any history of \<open>set\<close>, \<open>get\<close>, \<open>has\<close>, \<open>delete\<close>, \<open>clear\<close>, \<open>stop\<close>
  and timer callbacks on a new store, at most one timeout is pending, and it is the one
  whose handle \<open>timer\<close> holds.
\<close>

theorem at_most_one_timeout: 
  assumes "run es new = Some s"
  shows "length (timeouts s) \<le> 1 \<and> (\<forall>t \<in> set (timeouts s). timer s = Some (t_id t))"
proof -
  have "one_timer s" using one_timer_new assms by (rule one_timer_run)
  then show ?thesis by (auto simp: one_timer_def split: list.splits)
qed

text \<open>An instance: two keys with TTLs, then the first timer callback; the timeout for the
  second key is the one pending.\<close>

theorem at_most_one_timeout_witness:
  "run [(0, Set ''a'' (Val (1::nat)) (Some 300)), (0, Set ''b'' (Val 2) (Some 500)), (300, Fire 1)]
       (new :: (string, nat) TempBox)
     = Some (the (run [(0, Set ''a'' (Val 1) (Some 300)), (0, Set ''b'' (Val 2) (Some 500)),
                       (300, Fire 1)] new))
   \<and> length (timeouts (the (run [(0, Set ''a'' (Val (1::nat)) (Some 300)),
                (0, Set ''b'' (Val 2) (Some 500)), (300, Fire 1)] (new :: (string, nat) TempBox)))) = 1
   \<and> timer (the (run [(0, Set ''a'' (Val (1::nat)) (Some 300)),
                (0, Set ''b'' (Val 2) (Some 500)), (300, Fire 1)] (new :: (string, nat) TempBox))) = Some 2"
proof -
  have r: "run [(0, Set ''a'' (Val (1::nat)) (Some 300)), (0, Set ''b'' (Val 2) (Some 500)), (300, Fire 1)]
       (new :: (string, nat) TempBox)
     = Some (the (run [(0, Set ''a'' (Val 1) (Some 300)), (0, Set ''b'' (Val 2) (Some 500)),
                       (300, Fire 1)] new))"
    by (simp add: tb_defs)
  have t: "timeouts (the (run [(0, Set ''a'' (Val (1::nat)) (Some 300)),
                (0, Set ''b'' (Val 2) (Some 500)), (300, Fire 1)] (new :: (string, nat) TempBox))) \<noteq> []"
    by (simp add: tb_defs)
  have h: "timer (the (run [(0, Set ''a'' (Val (1::nat)) (Some 300)),
                (0, Set ''b'' (Val 2) (Some 500)), (300, Fire 1)] (new :: (string, nat) TempBox))) = Some 2"
    by (simp add: tb_defs)
  from at_most_one_timeout [OF r] t h r show ?thesis
    by (cases "timeouts (the (run [(0, Set ''a'' (Val (1::nat)) (Some 300)),
                (0, Set ''b'' (Val 2) (Some 500)), (300, Fire 1)] (new :: (string, nat) TempBox)))") auto
qed

text \<open>
  C10. After \<open>set(k, undefined)\<close> without a TTL the table holds an entry for \<open>k\<close> with
  no expiry, and yet \<open>get(k)\<close> returns \<open>undefined\<close> and \<open>has(k)\<close> returns false, at
  every instant and without changing the store: exactly what the two return once the key
  has been deleted.
\<close>

theorem undefined_value_reads_as_absent:
  "get t' k (setKey t k Undefined None s) = (Undefined, setKey t k Undefined None s)
   \<and> has t' k (setKey t k Undefined None s) = (False, setKey t k Undefined None s)
   \<and> data (setKey t k Undefined None s) k = Some \<lparr> e_value = Undefined, e_expiresAt = None \<rparr>
   \<and> fst (get t' k (setKey t k Undefined None s)) = fst (get t' k (snd (delete k s)))
   \<and> fst (has t' k (setKey t k Undefined None s)) = fst (has t' k (snd (delete k s)))"
  by (simp add: get_def has_def setKey_def delete_def Let_def)

end
